theory Spec2Isabelle
  imports Main "HOL-Library.Sublist"
begin

section \<open>Data model\<close>

text \<open>
  The script \<^verbatim>\<open>compress_history.py\<close> cleans a shell history file. A Python \<^verbatim>\<open>str\<close> is
  modelled as a \<^typ>\<open>string\<close>, so the characters covered are the code points below 256.
  On these the class \<^verbatim>\<open>\d\<close> of Python's \<^verbatim>\<open>re\<close> module (Unicode decimal digits) is exactly
  \<^verbatim>\<open>0\<close> to \<^verbatim>\<open>9\<close>, and \<^verbatim>\<open>.\<close> is every character but the line feed.
\<close>

abbreviation newline :: char where
  "newline \<equiv> CHR 0x0A"

text \<open>\<^verbatim>\<open>class ShellType(StrEnum)\<close>: two members, whose \<^verbatim>\<open>auto()\<close> values are the lower-cased
  member names.\<close>

datatype ShellType = ZSH | BASH

fun ShellType_value :: "ShellType \<Rightarrow> string" where
  "ShellType_value ZSH = ''zsh''"
| "ShellType_value BASH = ''bash''"

text \<open>The enum's constructor call \<^verbatim>\<open>ShellType(v)\<close>: the member with value \<^verbatim>\<open>v\<close>, or
  \<^verbatim>\<open>ValueError\<close> (here \<open>None\<close>).\<close>

definition ShellType_of_value :: "string \<Rightarrow> ShellType option" where
  "ShellType_of_value v =
     (if v = ShellType_value ZSH then Some ZSH
      else if v = ShellType_value BASH then Some BASH
      else None)"

section \<open>Shell detection\<close>

text \<open>\<^verbatim>\<open>sys.exit(1)\<close> after a \<^verbatim>\<open>print\<close>: the message written and the exit status.\<close>

datatype failure = SysExit (printed: string) (status: nat)

text \<open>\<^verbatim>\<open>str.split(sep)\<close> for a one-character separator: one more piece than there are
  separators; the empty string gives one empty piece.\<close>

fun split_str :: "char \<Rightarrow> string \<Rightarrow> string list" where
  "split_str sep [] = [[]]"
| "split_str sep (c # cs) =
     (if c = sep then [] # split_str sep cs
      else (c # hd (split_str sep cs)) # tl (split_str sep cs))"

text \<open>\<^verbatim>\<open>get_shell_type\<close> reads \<^verbatim>\<open>os.environ\<close>, here a map from names to values.\<close>

definition get_shell_type :: "(string \<rightharpoonup> string) \<Rightarrow> failure + ShellType" where
  "get_shell_type environ =
     (case environ ''SHELL'' of
        None \<Rightarrow> Inl (SysExit ''Can't determine type of shell, exiting.'' 1)
      | Some shell \<Rightarrow>
          if shell = [] then Inl (SysExit ''Can't determine type of shell, exiting.'' 1)
          else (case ShellType_of_value (last (split_str CHR ''/'' shell)) of
                  None \<Rightarrow> Inl (SysExit (''Unsupported shell type '' @ shell @ '', exiting.'') 1)
                | Some shellt \<Rightarrow> Inr shellt))"

section \<open>Entry parsing\<close>

definition is_digit :: "char \<Rightarrow> bool" where
  "is_digit c = (c \<in> set ''0123456789'')"

text \<open>
  The pattern \<^verbatim>\<open>(: \d+:\d+;)(.+)\<close> tried at the start of \<open>s\<close>, giving group 2. Each
  \<^verbatim>\<open>\d+\<close> is greedy and is followed by a character that is no digit, so giving digits
  back never helps and the longest run of digits is the only candidate; the greedy
  \<^verbatim>\<open>.+\<close> ends the pattern and takes the longest run without a line feed, which must not
  be empty.
\<close>

definition match_here :: "string \<Rightarrow> string option" where
  "match_here s =
     (case s of
        c1 # c2 # r1 \<Rightarrow>
          if c1 = CHR '':'' \<and> c2 = CHR '' '' \<and> takeWhile is_digit r1 \<noteq> [] then
            (case dropWhile is_digit r1 of
               c3 # r2 \<Rightarrow>
                 if c3 = CHR '':'' \<and> takeWhile is_digit r2 \<noteq> [] then
                   (case dropWhile is_digit r2 of
                      c4 # r3 \<Rightarrow>
                        if c4 = CHR '';'' \<and> takeWhile (\<lambda>c. c \<noteq> newline) r3 \<noteq> []
                        then Some (takeWhile (\<lambda>c. c \<noteq> newline) r3)
                        else None
                    | [] \<Rightarrow> None)
                 else None
             | [] \<Rightarrow> None)
          else None
      | _ \<Rightarrow> None)"

text \<open>\<^verbatim>\<open>re.search\<close>: the match at the leftmost position where the pattern matches.\<close>

fun re_search :: "string \<Rightarrow> string option" where
  "re_search [] = match_here []"
| "re_search (c # cs) =
     (case match_here (c # cs) of
        Some g \<Rightarrow> Some g
      | None \<Rightarrow> re_search cs)"

fun parse_history_entry :: "string \<Rightarrow> ShellType \<Rightarrow> string option" where
  "parse_history_entry entry ZSH = re_search entry"
| "parse_history_entry entry BASH = Some entry"

section \<open>Retention and length filters\<close>

definition starts_with :: "string list" where
  "starts_with = [''source'', ''git commit'']"

definition editors :: "string list" where
  "editors = [''nano'', ''vim'', ''nvim'', ''subl'', ''code'', ''emacs'']"

definition exact_match :: "string list" where
  "exact_match =
     [''python'', ''clear'', ''ls'', ''pwd'', ''cd ~'', ''cd /'', ''cd'', ''cd ..'', ''cd .'']"

text \<open>\<^verbatim>\<open>filter\<close>; the last rule sums the booleans of \<^verbatim>\<open>startswith\<close> over the prefix list.\<close>

definition filter_entry :: "string \<Rightarrow> bool" where
  "filter_entry parsed_entry =
     (if parsed_entry \<in> set exact_match then False
      else if parsed_entry \<in> set editors then False
      else if sum_list (map (\<lambda>s. if prefix s parsed_entry then 1 else 0) starts_with) > (0::int)
        then False
      else True)"

definition remove_long_commands :: "string \<Rightarrow> int \<Rightarrow> bool" where
  "remove_long_commands parsed_entry command_length =
     (if int (length parsed_entry) > command_length then False else True)"

section \<open>The clean pass\<close>

text \<open>The three local variables of \<^verbatim>\<open>clean_history_file\<close>. The set holds values of type
  \<^verbatim>\<open>str | None\<close>.\<close>

record clean_state =
  results :: "string list"
  unparsed :: nat
  unique_parsed_entries :: "string option set"

text \<open>One iteration of the loop body. Both \<^verbatim>\<open>continue\<close> statements leave the state as it
  is; every other path appends the raw entry and adds the parsed value to the set.\<close>

definition clean_step :: "ShellType \<Rightarrow> bool \<Rightarrow> string \<Rightarrow> clean_state \<Rightarrow> clean_state" where
  "clean_step shellt dedup entry st =
     (case parse_history_entry entry shellt of
        None \<Rightarrow>
          st\<lparr>results := results st @ [entry],
             unparsed := unparsed st + 1,
             unique_parsed_entries := insert None (unique_parsed_entries st)\<rparr>
      | Some parsed_entry \<Rightarrow>
          if \<not> filter_entry parsed_entry then st
          else if dedup \<and> Some parsed_entry \<in> unique_parsed_entries st then st
          else st\<lparr>results := results st @ [entry],
                  unique_parsed_entries := insert (Some parsed_entry) (unique_parsed_entries st)\<rparr>)"

definition clean_init :: clean_state where
  "clean_init = \<lparr>results = [], unparsed = 0, unique_parsed_entries = {}\<rparr>"

definition clean_history_file :: "string list \<Rightarrow> ShellType \<Rightarrow> bool \<Rightarrow> string list" where
  "clean_history_file raw_history shellt dedup =
     rev (results (fold (clean_step shellt dedup) (rev raw_history) clean_init))"

section \<open>Properties of shell detection\<close>

subsection \<open>The last piece of a split\<close>

lemma split_str_nonempty: "split_str sep s \<noteq> []"
  by (induction s) auto

lemma split_str_single: "tl (split_str sep s) = [] \<longleftrightarrow> sep \<notin> set s"
  by (induction s) (auto simp: split_str_nonempty)

lemma split_str_no_sep: "sep \<notin> set s \<Longrightarrow> split_str sep s = [s]"
  by (induction s) auto

lemma last_split_str:
  "last (split_str sep s) = rev (takeWhile (\<lambda>x. x \<noteq> sep) (rev s))"
proof (induction s)
  case Nil
  show ?case by simp
next
  case (Cons c cs)
  show ?case
  proof (cases "sep \<in> set cs")
    case True
    then have "tl (split_str sep cs) \<noteq> []"
      by (simp add: split_str_single)
    then have "last (tl (split_str sep cs)) = last (split_str sep cs)"
      by (cases "split_str sep cs") auto
    with True Cons show ?thesis
      by (auto simp: split_str_nonempty split_str_single takeWhile_append)
  next
    case False
    then have "split_str sep cs = [cs]"
      by (rule split_str_no_sep)
    moreover from False have "takeWhile (\<lambda>x. x \<noteq> sep) (rev cs) = rev cs"
      by (auto simp: takeWhile_eq_all_conv)
    ultimately show ?thesis
      by (simp add: takeWhile_append)
  qed
qed

lemma final_component_iff:
  assumes "sep \<notin> set w"
  shows "last (split_str sep s) = w \<longleftrightarrow> (\<exists>dir. s = dir @ w \<and> (dir = [] \<or> last dir = sep))"
proof
  let ?P = "\<lambda>x. x \<noteq> sep"
  assume l: "last (split_str sep s) = w"
  let ?dir = "rev (dropWhile ?P (rev s))"
  have "rev (rev s) = rev (takeWhile ?P (rev s) @ dropWhile ?P (rev s))"
    by (simp only: takeWhile_dropWhile_id)
  then have "s = ?dir @ rev (takeWhile ?P (rev s))"
    by (simp only: rev_rev_ident rev_append)
  then have "s = ?dir @ w"
    using l by (simp only: last_split_str)
  moreover have "?dir = [] \<or> last ?dir = sep"
  proof (cases "dropWhile ?P (rev s) = []")
    case True
    then show ?thesis by simp
  next
    case False
    then have "\<not> ?P (hd (dropWhile ?P (rev s)))"
      by (rule hd_dropWhile)
    with False show ?thesis by (simp add: last_rev)
  qed
  ultimately show "\<exists>dir. s = dir @ w \<and> (dir = [] \<or> last dir = sep)"
    by blast
next
  assume "\<exists>dir. s = dir @ w \<and> (dir = [] \<or> last dir = sep)"
  then obtain dir where s: "s = dir @ w" and d: "dir = [] \<or> last dir = sep"
    by blast
  have w: "takeWhile (\<lambda>x. x \<noteq> sep) (rev w) = rev w"
    using assms by (auto simp: takeWhile_eq_all_conv)
  have w': "\<forall>x\<in>set (rev w). x \<noteq> sep"
    using assms by auto
  show "last (split_str sep s) = w"
  proof (cases "dir = []")
    case True
    with s have "s = w" by simp
    then show ?thesis
      by (simp only: last_split_str w rev_rev_ident)
  next
    case False
    with d obtain b where "dir = b @ [sep]"
      by (metis append_butlast_last_id)
    with s have "rev s = rev w @ sep # rev b"
      by simp
    moreover have "takeWhile (\<lambda>x. x \<noteq> sep) (rev w @ sep # rev b) = rev w"
      using w' by (simp add: takeWhile_append)
    ultimately show ?thesis
      by (simp only: last_split_str rev_rev_ident)
  qed
qed

subsection \<open>Which values of the variable give a shell\<close>

lemma ShellType_of_value_Some:
  "ShellType_of_value v = Some t \<longleftrightarrow> v = ShellType_value t"
  by (cases t) (auto simp: ShellType_of_value_def)

lemma get_shell_type_Inr:
  "get_shell_type environ = Inr t \<longleftrightarrow>
     (\<exists>dir. environ ''SHELL'' = Some (dir @ ShellType_value t) \<and> (dir = [] \<or> last dir = CHR ''/''))"
proof (cases "environ ''SHELL''")
  case None
  then show ?thesis by (simp add: get_shell_type_def)
next
  case (Some shell)
  have nosep: "CHR ''/'' \<notin> set (ShellType_value t)"
    by (cases t) simp_all
  have ne: "ShellType_value t \<noteq> []"
    by (cases t) simp_all
  have "get_shell_type environ = Inr t \<longleftrightarrow>
      shell \<noteq> [] \<and> ShellType_of_value (last (split_str CHR ''/'' shell)) = Some t"
    using Some
    by (auto simp: get_shell_type_def split: option.splits)
  also have "\<dots> \<longleftrightarrow> shell \<noteq> [] \<and> last (split_str CHR ''/'' shell) = ShellType_value t"
    by (simp only: ShellType_of_value_Some)
  also have "\<dots> \<longleftrightarrow> (\<exists>dir. shell = dir @ ShellType_value t \<and> (dir = [] \<or> last dir = CHR ''/''))"
    using ne by (auto simp: final_component_iff [OF nosep])
  finally show ?thesis using Some by simp
qed

lemma get_shell_type_Inl:
  "(\<exists>msg. get_shell_type environ = Inl (SysExit msg 1) \<and> msg \<noteq> []) \<longleftrightarrow>
     (\<forall>t. get_shell_type environ \<noteq> Inr t)"
  by (auto simp: get_shell_type_def split: option.splits)

text \<open>
  Claim C8. \<^verbatim>\<open>get_shell_type\<close> returns the ZSH (the BASH) variant exactly when the
  variable \<^verbatim>\<open>SHELL\<close> is set and the text after its last \<^verbatim>\<open>/\<close> (the whole value when it has
  none) is \<^verbatim>\<open>zsh\<close> (is \<^verbatim>\<open>bash\<close>). In every other case, and only then, the result is the
  failure: a message is printed and the process exits with status 1.
\<close>

theorem get_shell_type_cases:
  "(get_shell_type environ = Inr ZSH \<longleftrightarrow>
      (\<exists>dir. environ ''SHELL'' = Some (dir @ ''zsh'') \<and> (dir = [] \<or> last dir = CHR ''/''))) \<and>
   (get_shell_type environ = Inr BASH \<longleftrightarrow>
      (\<exists>dir. environ ''SHELL'' = Some (dir @ ''bash'') \<and> (dir = [] \<or> last dir = CHR ''/''))) \<and>
   ((\<exists>msg. get_shell_type environ = Inl (SysExit msg 1) \<and> msg \<noteq> []) \<longleftrightarrow>
      \<not> (\<exists>dir. environ ''SHELL'' = Some (dir @ ''zsh'') \<and> (dir = [] \<or> last dir = CHR ''/'')) \<and>
      \<not> (\<exists>dir. environ ''SHELL'' = Some (dir @ ''bash'') \<and> (dir = [] \<or> last dir = CHR ''/'')))"
proof -
  have z: "get_shell_type environ = Inr ZSH \<longleftrightarrow>
      (\<exists>dir. environ ''SHELL'' = Some (dir @ ''zsh'') \<and> (dir = [] \<or> last dir = CHR ''/''))"
    using get_shell_type_Inr [of environ ZSH] by simp
  have b: "get_shell_type environ = Inr BASH \<longleftrightarrow>
      (\<exists>dir. environ ''SHELL'' = Some (dir @ ''bash'') \<and> (dir = [] \<or> last dir = CHR ''/''))"
    using get_shell_type_Inr [of environ BASH] by simp
  have "(\<forall>t. get_shell_type environ \<noteq> Inr t) \<longleftrightarrow>
      get_shell_type environ \<noteq> Inr ZSH \<and> get_shell_type environ \<noteq> Inr BASH"
    by (metis ShellType.exhaust)
  then have e: "(\<exists>msg. get_shell_type environ = Inl (SysExit msg 1) \<and> msg \<noteq> []) \<longleftrightarrow>
      get_shell_type environ \<noteq> Inr ZSH \<and> get_shell_type environ \<noteq> Inr BASH"
    by (simp only: get_shell_type_Inl)
  show ?thesis
    unfolding e z [symmetric] b [symmetric] by simp
qed

section \<open>Properties of entry parsing\<close>

subsection \<open>The pattern at one position and the search\<close>

lemma digits_takeWhile:
  "\<forall>x\<in>set d. is_digit x \<Longrightarrow> \<not> is_digit c \<Longrightarrow> takeWhile is_digit (d @ c # r) = d"
  by simp

lemma digits_dropWhile:
  "\<forall>x\<in>set d. is_digit x \<Longrightarrow> \<not> is_digit c \<Longrightarrow> dropWhile is_digit (d @ c # r) = c # r"
  by simp

lemma match_here_timestamp:
  assumes "d1 \<noteq> []" "d2 \<noteq> []" "\<forall>x\<in>set d1. is_digit x" "\<forall>x\<in>set d2. is_digit x"
  shows "match_here ('': '' @ d1 @ '':'' @ d2 @ '';'' @ r) =
    (if takeWhile (\<lambda>c. c \<noteq> newline) r = [] then None else Some (takeWhile (\<lambda>c. c \<noteq> newline) r))"
proof -
  have nd: "\<not> is_digit CHR '':''" "\<not> is_digit CHR '';''" by (simp_all add: is_digit_def)
  show ?thesis using assms
    by (simp add: match_here_def digits_takeWhile digits_dropWhile nd)
qed

lemma match_here_SomeD:
  assumes "match_here s = Some g"
  shows "\<exists>d1 d2 r. s = '': '' @ d1 @ '':'' @ d2 @ '';'' @ r \<and> d1 \<noteq> [] \<and> d2 \<noteq> [] \<and>
     (\<forall>x\<in>set d1. is_digit x) \<and> (\<forall>x\<in>set d2. is_digit x) \<and>
     g = takeWhile (\<lambda>c. c \<noteq> newline) r \<and> g \<noteq> []"
proof -
  from assms obtain r1 where s: "s = CHR '':'' # CHR '' '' # r1" and d1: "takeWhile is_digit r1 \<noteq> []"
    by (auto simp: match_here_def split: list.splits if_splits)
  from assms s d1 obtain r2 where r2: "dropWhile is_digit r1 = CHR '':'' # r2" and d2: "takeWhile is_digit r2 \<noteq> []"
    by (auto simp: match_here_def split: list.splits if_splits)
  from assms s d1 r2 d2 obtain r3 where r3: "dropWhile is_digit r2 = CHR '';'' # r3"
    and g: "g = takeWhile (\<lambda>c. c \<noteq> newline) r3" "g \<noteq> []"
    by (auto simp: match_here_def split: list.splits if_splits)
  have "r1 = takeWhile is_digit r1 @ CHR '':'' # r2" using r2 takeWhile_dropWhile_id[of is_digit r1] by simp
  moreover have "r2 = takeWhile is_digit r2 @ CHR '';'' # r3" using r3 takeWhile_dropWhile_id[of is_digit r2] by simp
  ultimately have "s = '': '' @ takeWhile is_digit r1 @ '':'' @ takeWhile is_digit r2 @ '';'' @ r3"
    using s by simp
  moreover have "\<forall>x\<in>set (takeWhile is_digit r1). is_digit x" "\<forall>x\<in>set (takeWhile is_digit r2). is_digit x"
    by (auto dest: set_takeWhileD)
  ultimately show ?thesis using d1 d2 g by blast
qed

lemma re_search_SomeD: "re_search s = Some g \<Longrightarrow> \<exists>k\<le>length s. match_here (drop k s) = Some g"
proof (induction s)
  case Nil
  then show ?case by simp
next
  case (Cons c cs)
  show ?case
  proof (cases "match_here (c # cs)")
    case None
    with Cons obtain k where "k \<le> length cs" "match_here (drop k cs) = Some g" by auto
    then have "Suc k \<le> length (c # cs) \<and> match_here (drop (Suc k) (c # cs)) = Some g" by simp
    then show ?thesis by blast
  next
    case (Some a)
    with Cons.prems have "match_here (drop 0 (c # cs)) = Some g" by simp
    then show ?thesis by blast
  qed
qed

lemma re_search_first:
  "\<forall>k<length pre. match_here (drop k (pre @ t)) = None \<Longrightarrow> re_search (pre @ t) = re_search t"
proof (induction pre)
  case Nil
  show ?case by simp
next
  case (Cons c pre)
  from Cons.prems have "match_here (drop 0 ((c # pre) @ t)) = None" by blast
  then have h: "match_here (c # pre @ t) = None" by simp
  have "\<forall>k<length pre. match_here (drop k (pre @ t)) = None"
  proof (intro allI impI)
    fix k assume "k < length pre"
    then have "Suc k < length (c # pre)" by simp
    with Cons.prems have "match_here (drop (Suc k) ((c # pre) @ t)) = None" by blast
    then show "match_here (drop k (pre @ t)) = None" by simp
  qed
  with Cons.IH h show ?case by simp
qed

lemma re_search_match_here: "match_here t = Some g \<Longrightarrow> re_search t = Some g"
  by (cases t) (auto)

lemma re_search_anywhere: "match_here t \<noteq> None \<Longrightarrow> re_search (pre @ t) \<noteq> None"
  by (induction pre) (auto simp: re_search_match_here split: option.splits)


lemma match_here_semicolon:
  assumes "match_here s = Some g"
  shows "\<exists>u x v. s = u @ CHR '';'' # x # v \<and> x \<noteq> newline"
proof -
  from match_here_SomeD [OF assms] obtain d1 d2 r where
    s: "s = '': '' @ d1 @ '':'' @ d2 @ '';'' @ r" and g: "g = takeWhile (\<lambda>c. c \<noteq> newline) r" "g \<noteq> []"
    by blast
  from g obtain x v where r: "r = x # v" and x: "x \<noteq> newline"
    by (cases r) (auto split: if_splits)
  from s r have "s = ('': '' @ d1 @ '':'' @ d2) @ CHR '';'' # x # v"
    by simp
  with x show ?thesis by blast
qed

lemma re_search_semicolon:
  assumes "re_search s = Some g"
  shows "\<exists>u x v. s = u @ CHR '';'' # x # v \<and> x \<noteq> newline"
proof -
  from re_search_SomeD [OF assms] obtain k where "match_here (drop k s) = Some g"
    by blast
  from match_here_semicolon [OF this] obtain u x v where
    d: "drop k s = u @ CHR '';'' # x # v" and x: "x \<noteq> newline"
    by blast
  have "s = take k s @ drop k s" by simp
  with d have "s = (take k s @ u) @ CHR '';'' # x # v" by simp
  with x show ?thesis by blast
qed

lemma re_search_nonempty: "re_search s \<noteq> Some []"
proof
  assume "re_search s = Some []"
  from re_search_SomeD [OF this] obtain k where "match_here (drop k s) = Some []"
    by blast
  from match_here_SomeD [OF this] show False by blast
qed

lemma first_semicolon:
  assumes "c \<notin> set p" and "p @ c # t = u @ c # w"
  shows "t = w \<or> c \<in> set t"
  by (meson append_Cons_eq_iff assms(1,2))

subsection \<open>The search is not anchored\<close>

text \<open>
  Claim C10, as the claim states it: the returned command is the text after the first
  occurrence. It fails on a line that keeps its line feed: the text after the
  timestamp of \<^verbatim>\<open>echo : 1:2;x\n\<close> is \<^verbatim>\<open>x\n\<close>, the command returned is \<^verbatim>\<open>x\<close>.
\<close>

theorem zsh_text_after_counterexample:
  "parse_history_entry (''echo : 1:2;'' @ ''x'' @ [newline]) ZSH \<noteq> Some (''x'' @ [newline])"
  by (simp add: match_here_def is_digit_def)

text \<open>
  Claim C10, amended. For ZSH, a line that has \<^verbatim>\<open>: <digits>:<digits>;\<close> followed by a
  character other than the line feed, at any position, parses successfully. When no
  earlier position of the line matches the pattern, the command returned is the text
  after that timestamp up to, and without, the first line feed.
\<close>

theorem zsh_search_unanchored:
  assumes "entry = pre @ '': '' @ d1 @ '':'' @ d2 @ '';'' @ c # rest"
    and "d1 \<noteq> []" and "d2 \<noteq> []"
    and "\<forall>x\<in>set d1. is_digit x" and "\<forall>x\<in>set d2. is_digit x"
    and "c \<noteq> newline"
  shows "(\<exists>cmd. parse_history_entry entry ZSH = Some cmd) \<and>
         ((\<forall>k<length pre. match_here (drop k entry) = None) \<longrightarrow>
            parse_history_entry entry ZSH = Some (takeWhile (\<lambda>x. x \<noteq> newline) (c # rest)))"
proof -
  let ?t = "'': '' @ d1 @ '':'' @ d2 @ '';'' @ c # rest"
  have m: "match_here ?t = Some (takeWhile (\<lambda>x. x \<noteq> newline) (c # rest))"
    using match_here_timestamp [OF assms(2,3,4,5), of "c # rest"] assms(6) by simp
  then have "re_search (pre @ ?t) \<noteq> None"
    by (intro re_search_anywhere) simp
  then have ex: "\<exists>cmd. parse_history_entry entry ZSH = Some cmd"
    using assms(1) by auto
  have first: "parse_history_entry entry ZSH = Some (takeWhile (\<lambda>x. x \<noteq> newline) (c # rest))"
    if "\<forall>k<length pre. match_here (drop k entry) = None"
  proof -
    from that assms(1) have "\<forall>k<length pre. match_here (drop k (pre @ ?t)) = None"
      by simp
    then have "re_search (pre @ ?t) = re_search ?t"
      by (rule re_search_first)
    also from m have "\<dots> = Some (takeWhile (\<lambda>x. x \<noteq> newline) (c # rest))"
      by (rule re_search_match_here)
    finally show ?thesis using assms(1) by simp
  qed
  from ex first show ?thesis by blast
qed

theorem zsh_search_unanchored_witness:
  "parse_history_entry ''echo : 1:2;x'' ZSH = Some ''x'' \<and>
   parse_history_entry (''echo : 1:2;x'' @ [newline]) ZSH = Some ''x''"
proof -
  have a: "\<forall>k<length ''echo ''. match_here (drop k ''echo : 1:2;x'') = None"
    by (simp add: match_here_def All_less_Suc2)
  have b: "\<forall>k<length ''echo ''. match_here (drop k (''echo : 1:2;x'' @ [newline])) = None"
    by (simp add: match_here_def All_less_Suc2)
  show ?thesis
    using a b
      zsh_search_unanchored [of "''echo : 1:2;x''" "''echo ''" "''1''" "''2''" "CHR ''x''" "[]"]
      zsh_search_unanchored [of "''echo : 1:2;x'' @ [newline]" "''echo ''" "''1''" "''2''" "CHR ''x''" "[newline]"]
    by (simp add: is_digit_def)
qed

section \<open>Properties of the retention filter\<close>

text \<open>
  Claim C7. \<^verbatim>\<open>filter\<close> returns \<^verbatim>\<open>False\<close> exactly when the command is one of the nine
  exact-match strings, or one of the six editor names, or starts with \<^verbatim>\<open>source\<close> or
  \<^verbatim>\<open>git commit\<close>; otherwise it returns \<^verbatim>\<open>True\<close>. The three rules are tried in this
  order and each of them sets the same value, so the first that matches decides.
\<close>

theorem filter_entry_policy:
  "filter_entry parsed_entry \<longleftrightarrow>
     \<not> (parsed_entry \<in> {''python'', ''clear'', ''ls'', ''pwd'', ''cd ~'', ''cd /'', ''cd'', ''cd ..'', ''cd .''}
        \<or> parsed_entry \<in> {''nano'', ''vim'', ''nvim'', ''subl'', ''code'', ''emacs''}
        \<or> prefix ''source'' parsed_entry
        \<or> prefix ''git commit'' parsed_entry)"
  by (simp add: filter_entry_def exact_match_def editors_def starts_with_def)

section \<open>Properties of the clean pass\<close>

subsection \<open>The loop, one entry at a time\<close>

lemma results_clean_step:
  "results (clean_step shellt dedup e st) =
     (case parse_history_entry e shellt of
        None \<Rightarrow> results st @ [e]
      | Some p \<Rightarrow>
          if \<not> filter_entry p then results st
          else if dedup \<and> Some p \<in> unique_parsed_entries st then results st
          else results st @ [e])"
  by (simp add: clean_step_def split: option.splits)

lemma unique_clean_step:
  "unique_parsed_entries (clean_step shellt dedup e st) =
     (case parse_history_entry e shellt of
        None \<Rightarrow> insert None (unique_parsed_entries st)
      | Some p \<Rightarrow>
          if \<not> filter_entry p then unique_parsed_entries st
          else if dedup \<and> Some p \<in> unique_parsed_entries st then unique_parsed_entries st
          else insert (Some p) (unique_parsed_entries st))"
  by (simp add: clean_step_def split: option.splits)

lemma fold_clean_unique:
  "unique_parsed_entries (fold (clean_step shellt dedup) xs clean_init) =
     (\<lambda>e. parse_history_entry e shellt) ` set (results (fold (clean_step shellt dedup) xs clean_init))"
proof (induction xs rule: rev_induct)
  case Nil
  show ?case by (simp add: clean_init_def)
next
  case (snoc x xs)
  then show ?case
    by (cases dedup) (auto simp: results_clean_step unique_clean_step split: option.splits)
qed

lemma clean_Nil: "clean_history_file [] shellt dedup = []"
  by (simp add: clean_history_file_def clean_init_def)

text \<open>The loop run over one more (older) entry in front: a recursion over the raw
  history, oldest entry first.\<close>

lemma clean_Cons:
  "clean_history_file (e # es) shellt dedup =
     (case parse_history_entry e shellt of
        None \<Rightarrow> e # clean_history_file es shellt dedup
      | Some p \<Rightarrow>
          if \<not> filter_entry p then clean_history_file es shellt dedup
          else if dedup \<and> Some p \<in> (\<lambda>x. parse_history_entry x shellt) ` set (clean_history_file es shellt dedup)
            then clean_history_file es shellt dedup
          else e # clean_history_file es shellt dedup)"
  by (cases dedup)
    (simp_all add: clean_history_file_def results_clean_step fold_clean_unique split: option.splits)

lemma clean_parsed_set:
  "filter_entry p \<Longrightarrow>
     Some p \<in> (\<lambda>x. parse_history_entry x shellt) ` set (clean_history_file es shellt dedup)
       \<longleftrightarrow> Some p \<in> (\<lambda>x. parse_history_entry x shellt) ` set es"
  by (induction es) (auto simp: clean_Nil clean_Cons split: option.splits)

subsection \<open>The surviving positions\<close>

lemma later_Cons:
  "(\<forall>j. Suc i < j \<and> j < Suc (length es) \<longrightarrow> Q ((e # es) ! j)) \<longleftrightarrow>
   (\<forall>j. i < j \<and> j < length es \<longrightarrow> Q (es ! j))"
proof
  assume h: "\<forall>j. Suc i < j \<and> j < Suc (length es) \<longrightarrow> Q ((e # es) ! j)"
  show "\<forall>j. i < j \<and> j < length es \<longrightarrow> Q (es ! j)"
  proof (intro allI impI)
    fix j assume "i < j \<and> j < length es"
    then have "Suc i < Suc j \<and> Suc j < Suc (length es)" by simp
    with h have "Q ((e # es) ! Suc j)" by blast
    then show "Q (es ! j)" by simp
  qed
next
  assume h: "\<forall>j. i < j \<and> j < length es \<longrightarrow> Q (es ! j)"
  show "\<forall>j. Suc i < j \<and> j < Suc (length es) \<longrightarrow> Q ((e # es) ! j)"
  proof (intro allI impI)
    fix j assume j: "Suc i < j \<and> j < Suc (length es)"
    then obtain j' where "j = Suc j'" by (cases j) auto
    with j h show "Q ((e # es) ! j)" by simp
  qed
qed

lemma later_0:
  "(\<forall>j. 0 < j \<and> j < Suc (length es) \<longrightarrow> Q ((e # es) ! j)) \<longleftrightarrow> (\<forall>x\<in>set es. Q x)"
proof -
  have "(\<forall>j. 0 < j \<and> j < Suc (length es) \<longrightarrow> Q ((e # es) ! j)) \<longleftrightarrow>
        (\<forall>j. j < length es \<longrightarrow> Q (es ! j))"
  proof
    assume h: "\<forall>j. 0 < j \<and> j < Suc (length es) \<longrightarrow> Q ((e # es) ! j)"
    show "\<forall>j. j < length es \<longrightarrow> Q (es ! j)"
    proof (intro allI impI)
      fix j assume "j < length es"
      then have "0 < Suc j \<and> Suc j < Suc (length es)" by simp
      with h have "Q ((e # es) ! Suc j)" by blast
      then show "Q (es ! j)" by simp
    qed
  next
    assume h: "\<forall>j. j < length es \<longrightarrow> Q (es ! j)"
    show "\<forall>j. 0 < j \<and> j < Suc (length es) \<longrightarrow> Q ((e # es) ! j)"
    proof (intro allI impI)
      fix j assume j: "0 < j \<and> j < Suc (length es)"
      then obtain j' where "j = Suc j'" by (cases j) auto
      with j h show "Q ((e # es) ! j)" by simp
    qed
  qed
  then show ?thesis by (simp add: all_set_conv_all_nth)
qed

lemma later_parse_Cons:
  "(\<forall>j. Suc i < j \<and> j < Suc (length es) \<longrightarrow> parse_history_entry ((e # es) ! j) shellt \<noteq> Some p) \<longleftrightarrow>
   (\<forall>j. i < j \<and> j < length es \<longrightarrow> parse_history_entry (es ! j) shellt \<noteq> Some p)"
  by (rule later_Cons)

lemma later_parse_0:
  "(\<forall>j. 0 < j \<and> j < Suc (length es) \<longrightarrow> parse_history_entry ((e # es) ! j) shellt \<noteq> Some p) \<longleftrightarrow>
   Some p \<notin> (\<lambda>x. parse_history_entry x shellt) ` set es"
proof -
  have "(\<forall>j. 0 < j \<and> j < Suc (length es) \<longrightarrow> parse_history_entry ((e # es) ! j) shellt \<noteq> Some p) \<longleftrightarrow>
      (\<forall>x\<in>set es. parse_history_entry x shellt \<noteq> Some p)"
    by (rule later_0)
  also have "\<dots> \<longleftrightarrow> Some p \<notin> (\<lambda>x. parse_history_entry x shellt) ` set es"
    by force
  finally show ?thesis .
qed

lemma clean_nths:
  "clean_history_file raw shellt dedup =
     nths raw {i. i < length raw \<and>
       (case parse_history_entry (raw ! i) shellt of
          None \<Rightarrow> True
        | Some p \<Rightarrow> filter_entry p \<and>
            (dedup \<longrightarrow> (\<forall>j. i < j \<and> j < length raw \<longrightarrow>
               parse_history_entry (raw ! j) shellt \<noteq> Some p)))}"
  (is "_ = nths raw (?A raw)")
proof (induction raw)
  case Nil
  show ?case by (simp add: clean_Nil)
next
  case (Cons e es)
  have tail: "{j. Suc j \<in> ?A (e # es)} = ?A es"
    by (auto simp: later_parse_Cons simp del: nth_Cons_pos split: option.splits)
  have head: "0 \<in> ?A (e # es) \<longleftrightarrow>
      (case parse_history_entry e shellt of
         None \<Rightarrow> True
       | Some p \<Rightarrow> filter_entry p \<and>
           (dedup \<longrightarrow> Some p \<notin> (\<lambda>x. parse_history_entry x shellt) ` set es))"
    by (auto simp: later_parse_0 simp del: nth_Cons_pos split: option.splits)
  have "nths (e # es) (?A (e # es)) =
      (if 0 \<in> ?A (e # es) then [e] else []) @ nths es (?A es)"
    by (simp only: nths_Cons tail)
  also have "\<dots> = clean_history_file (e # es) shellt dedup"
    unfolding head Cons.IH [symmetric]
    by (auto simp: clean_Cons clean_parsed_set split: option.splits)
  finally show ?case by simp
qed

subsection \<open>Unparseable entries\<close>

text \<open>
  Claim C4. Every raw entry for which \<^verbatim>\<open>parse_history_entry\<close> returns \<^verbatim>\<open>None\<close> is in the
  output of \<^verbatim>\<open>clean_history_file\<close>, unchanged and in its original relative order,
  whether deduplication is enabled or not: the unparseable entries of the output are
  the unparseable entries of the input, as lists.
\<close>

theorem clean_keeps_unparseable:
  "filter (\<lambda>e. parse_history_entry e shellt = None) (clean_history_file raw_history shellt dedup)
     = filter (\<lambda>e. parse_history_entry e shellt = None) raw_history"
  by (induction raw_history) (auto simp: clean_Nil clean_Cons split: option.splits)

subsection \<open>Idempotence\<close>

text \<open>
  Claim C5. Running \<^verbatim>\<open>clean_history_file\<close> with deduplication enabled on its own output
  gives that output again.
\<close>

theorem clean_idempotent:
  "clean_history_file (clean_history_file h st True) st True = clean_history_file h st True"
proof (induction h)
  case Nil
  show ?case by (simp add: clean_Nil)
next
  case (Cons e es)
  show ?case
  proof (cases "parse_history_entry e st")
    case None
    then show ?thesis using Cons by (simp add: clean_Cons)
  next
    case (Some p)
    then show ?thesis using Cons by (simp add: clean_Cons)
  qed
qed

subsection \<open>Order preservation\<close>

text \<open>
  Claim C6. The output of \<^verbatim>\<open>clean_history_file\<close> is a subsequence of its input: it is
  obtained from the input by deleting entries, so every surviving entry is an input
  entry as it was and the survivors keep their relative order.
\<close>

theorem clean_order_preserved:
  "subseq (clean_history_file raw_history shellt dedup) raw_history"
  by (induction raw_history) (auto simp: clean_Nil clean_Cons split: option.splits)

subsection \<open>Lines that keep their line terminator\<close>

lemma clean_keeps_passing:
  assumes "e \<in> set raw" and "parse_history_entry e shellt = Some p" and "filter_entry p"
  shows "\<exists>e'\<in>set (clean_history_file raw shellt dedup). parse_history_entry e' shellt = Some p"
proof -
  from assms(1,2) have "Some p \<in> (\<lambda>x. parse_history_entry x shellt) ` set raw"
    by force
  with assms(3) have "Some p \<in> (\<lambda>x. parse_history_entry x shellt) ` set (clean_history_file raw shellt dedup)"
    by (simp add: clean_parsed_set)
  then show ?thesis by force
qed

text \<open>
  Claim C9. For BASH the raw line is the parsed command, line terminator included. So
  for an exact-match or editor command \<open>c\<close>, the line \<open>c\<close> followed by a line feed (as
  \<^verbatim>\<open>readlines\<close> gives it) passes \<^verbatim>\<open>filter\<close>, and \<^verbatim>\<open>clean_history_file\<close> retains that
  line whenever the history has it; the command itself, which the two rules do
  reject, never ends in a line feed.
\<close>

theorem bash_newline_defeats_exact_rules:
  assumes "c \<in> set exact_match \<union> set editors"
  shows "parse_history_entry (c @ [newline]) BASH = Some (c @ [newline]) \<and>
         filter_entry (c @ [newline]) \<and>
         (c @ [newline] \<in> set raw_history \<longrightarrow>
            c @ [newline] \<in> set (clean_history_file raw_history BASH dedup)) \<and>
         \<not> filter_entry c \<and> (\<forall>c'. c \<noteq> c' @ [newline])"
proof -
  have f: "filter_entry (c @ [newline])"
    using assms by (auto simp: filter_entry_def exact_match_def editors_def starts_with_def)
  have r: "c @ [newline] \<in> set (clean_history_file raw_history BASH dedup)"
    if "c @ [newline] \<in> set raw_history"
    using clean_keeps_passing [OF that _ f, of BASH dedup] by simp
  have n: "\<not> filter_entry c"
    using assms by (auto simp: filter_entry_def)
  have t: "c \<noteq> c' @ [newline]" for c'
    using assms by (auto simp: exact_match_def editors_def)
  from f r n t show ?thesis by simp
qed

theorem bash_newline_defeats_exact_rules_witness:
  "''cd'' \<in> set exact_match \<union> set editors \<and>
   parse_history_entry (''cd'' @ [newline]) BASH = Some (''cd'' @ [newline]) \<and>
   filter_entry (''cd'' @ [newline]) \<and>
   ''cd'' @ [newline] \<in> set [''cd'' @ [newline], ''ls -la'' @ [newline], ''cd'' @ [newline]] \<and>
   ''cd'' @ [newline] \<in> set (clean_history_file [''cd'' @ [newline], ''ls -la'' @ [newline], ''cd'' @ [newline]] BASH True) \<and>
   \<not> filter_entry ''cd''"
proof -
  have h: "''cd'' \<in> set exact_match \<union> set editors"
    by (simp add: exact_match_def)
  show ?thesis
    using h bash_newline_defeats_exact_rules [OF h, of "[''cd'' @ [newline], ''ls -la'' @ [newline], ''cd'' @ [newline]]" True]
    by simp
qed


subsection \<open>A timestamp with nothing after it\<close>

lemma clean_keeps_None:
  "e \<in> set raw \<Longrightarrow> parse_history_entry e shellt = None \<Longrightarrow>
     e \<in> set (clean_history_file raw shellt dedup)"
  by (induction raw) (auto simp: clean_Nil clean_Cons split: option.splits)

text \<open>
  Claim C1, as the claim states it: a ZSH line that is a timestamp prefix with an empty
  tail parses into the empty command. It does not: \<^verbatim>\<open>.+\<close> needs one character.
\<close>

theorem zsh_empty_tail_counterexample:
  "parse_history_entry '': 1:1;'' ZSH \<noteq> Some []"
  by (simp add: match_here_def is_digit_def)

text \<open>
  Claim C1, amended. For ZSH, a raw line that is a timestamp prefix
  \<^verbatim>\<open>: <digits>:<digits>;\<close> with an empty tail (nothing, or only the line feed, after the
  \<^verbatim>\<open>;\<close>) is unparseable: \<^verbatim>\<open>parse_history_entry\<close> returns \<^verbatim>\<open>None\<close>. The ZSH parser returns
  the empty string for no line at all, and \<^verbatim>\<open>clean_history_file\<close> retains such a line
  as it is, as it does every unparseable line.
\<close>

theorem zsh_empty_tail_unparseable:
  assumes "d1 \<noteq> []" and "d2 \<noteq> []"
    and "\<forall>x\<in>set d1. is_digit x" and "\<forall>x\<in>set d2. is_digit x"
    and "tail = [] \<or> tail = [newline]"
  shows "parse_history_entry ('': '' @ d1 @ '':'' @ d2 @ '';'' @ tail) ZSH = None \<and>
         parse_history_entry entry ZSH \<noteq> Some [] \<and>
         ('': '' @ d1 @ '':'' @ d2 @ '';'' @ tail \<in> set raw_history \<longrightarrow>
            '': '' @ d1 @ '':'' @ d2 @ '';'' @ tail \<in> set (clean_history_file raw_history ZSH dedup))"
proof -
  let ?line = "'': '' @ d1 @ '':'' @ d2 @ '';'' @ tail"
  have none: "re_search ?line = None"
  proof (rule ccontr)
    assume "re_search ?line \<noteq> None"
    then obtain g where "re_search ?line = Some g" by blast
    from re_search_semicolon [OF this] obtain u x v where
      e: "?line = u @ CHR '';'' # x # v" and x: "x \<noteq> newline"
      by blast
    have nd: "\<not> is_digit CHR '';''"
      by (simp add: is_digit_def)
    from nd assms(3) have n1: "CHR '';'' \<notin> set d1" by blast
    from nd assms(4) have n2: "CHR '';'' \<notin> set d2" by blast
    have l: "('': '' @ d1 @ '':'' @ d2) @ CHR '';'' # tail = ?line"
      by simp
    from n1 n2 have "CHR '';'' \<notin> set ('': '' @ d1 @ '':'' @ d2)"
      by simp
    moreover from l e have "('': '' @ d1 @ '':'' @ d2) @ CHR '';'' # tail = u @ CHR '';'' # x # v"
      by (rule trans)
    ultimately have "tail = x # v \<or> CHR '';'' \<in> set tail"
      by (rule first_semicolon)
    with assms(5) x show False by auto
  qed
  have kept: "?line \<in> set (clean_history_file raw_history ZSH dedup)" if "?line \<in> set raw_history"
    using that none by (simp add: clean_keeps_None)
  from none kept show ?thesis
    by (simp add: re_search_nonempty)
qed


theorem zsh_empty_tail_unparseable_witness:
  "parse_history_entry '': 1:1;'' ZSH = None \<and>
   '': 1:1;'' \<in> set (clean_history_file ['': 1:1;'', '': 2:1;echo hi''] ZSH True) \<and>
   parse_history_entry ('': 1:1;'' @ [newline]) ZSH = None"
  using zsh_empty_tail_unparseable [of "''1''" "''1''" "[]" "[]" "['': 1:1;'', '': 2:1;echo hi'']" True]
    zsh_empty_tail_unparseable [of "''1''" "''1''" "[newline]" "[]" "[]" True]
  by (simp add: is_digit_def)


subsection \<open>Last occurrence wins\<close>

lemma clean_no_dedup:
  "clean_history_file raw shellt False =
     filter (\<lambda>e. case parse_history_entry e shellt of None \<Rightarrow> True | Some p \<Rightarrow> filter_entry p) raw"
  by (induction raw) (auto simp: clean_Nil clean_Cons split: option.splits)

lemma clean_only_passing:
  "e \<in> set (clean_history_file raw shellt dedup) \<Longrightarrow> parse_history_entry e shellt = Some p \<Longrightarrow>
     filter_entry p"
  by (induction raw) (auto simp: clean_Nil clean_Cons split: option.splits if_splits)

text \<open>
  Claim C2. With deduplication enabled, the output of \<^verbatim>\<open>clean_history_file\<close> is the input
  restricted to the positions whose entry is unparseable, or whose parsed command
  passes \<^verbatim>\<open>filter\<close> and is the parsed command of no later entry: of the entries with one
  parsed command that passes the filter, exactly the last is retained. With
  deduplication disabled, the output is the input without the entries whose parsed
  command \<^verbatim>\<open>filter\<close> rejects. In both modes no entry of the output has a parsed
  command that \<^verbatim>\<open>filter\<close> rejects.
\<close>

theorem clean_last_occurrence_wins:
  "clean_history_file raw_history shellt True =
     nths raw_history {i. i < length raw_history \<and>
       (case parse_history_entry (raw_history ! i) shellt of
          None \<Rightarrow> True
        | Some p \<Rightarrow> filter_entry p \<and>
            (\<forall>j. i < j \<and> j < length raw_history \<longrightarrow>
               parse_history_entry (raw_history ! j) shellt \<noteq> Some p))} \<and>
   clean_history_file raw_history shellt False =
     filter (\<lambda>e. case parse_history_entry e shellt of
                   None \<Rightarrow> True
                 | Some p \<Rightarrow> filter_entry p) raw_history \<and>
   (\<forall>e\<in>set (clean_history_file raw_history shellt dedup).
      \<forall>p. parse_history_entry e shellt = Some p \<longrightarrow> filter_entry p)"
proof -
  have "clean_history_file raw_history shellt True =
     nths raw_history {i. i < length raw_history \<and>
       (case parse_history_entry (raw_history ! i) shellt of
          None \<Rightarrow> True
        | Some p \<Rightarrow> filter_entry p \<and>
            (\<forall>j. i < j \<and> j < length raw_history \<longrightarrow>
               parse_history_entry (raw_history ! j) shellt \<noteq> Some p))}"
    using clean_nths [of raw_history shellt True] by (simp cong: option.case_cong)
  moreover note clean_no_dedup [of raw_history shellt]
  moreover have "\<forall>e\<in>set (clean_history_file raw_history shellt dedup).
      \<forall>p. parse_history_entry e shellt = Some p \<longrightarrow> filter_entry p"
    by (blast intro: clean_only_passing)
  ultimately show ?thesis by (intro conjI)
qed

theorem clean_last_occurrence_wins_witness:
  "clean_history_file ['': 1:1;ls'', '': 2:1;echo hi'', '': 3:1;echo hi''] ZSH True =
     nths ['': 1:1;ls'', '': 2:1;echo hi'', '': 3:1;echo hi''] {2} \<and>
   clean_history_file ['': 1:1;ls'', '': 2:1;echo hi'', '': 3:1;echo hi''] ZSH False =
     ['': 2:1;echo hi'', '': 3:1;echo hi''] \<and>
   parse_history_entry '': 2:1;echo hi'' ZSH = Some ''echo hi'' \<and>
   parse_history_entry '': 3:1;echo hi'' ZSH = Some ''echo hi'' \<and>
   filter_entry ''echo hi'' \<and> \<not> filter_entry ''ls''"
proof -
  let ?raw = "['': 1:1;ls'', '': 2:1;echo hi'', '': 3:1;echo hi'']"
  have p0: "parse_history_entry '': 1:1;ls'' ZSH = Some ''ls''"
    by (simp add: match_here_def is_digit_def)
  have p1: "parse_history_entry '': 2:1;echo hi'' ZSH = Some ''echo hi''"
    by (simp add: match_here_def is_digit_def)
  have p2: "parse_history_entry '': 3:1;echo hi'' ZSH = Some ''echo hi''"
    by (simp add: match_here_def is_digit_def)
  have f1: "filter_entry ''echo hi''"
    by (simp add: filter_entry_def exact_match_def editors_def starts_with_def)
  have f0: "\<not> filter_entry ''ls''"
    by (simp add: filter_entry_def exact_match_def)
  have idx: "{i. i < length ?raw \<and>
       (case parse_history_entry (?raw ! i) ZSH of
          None \<Rightarrow> True
        | Some p \<Rightarrow> filter_entry p \<and>
            (\<forall>j. i < j \<and> j < length ?raw \<longrightarrow>
               parse_history_entry (?raw ! j) ZSH \<noteq> Some p))} = {2}"
    (is "?A = _")
  proof (rule set_eqI)
    fix i :: nat
    consider "i = 0" | "i = 1" | "i = 2" | "3 \<le> i" by linarith
    then show "i \<in> ?A \<longleftrightarrow> i \<in> {2}"
    proof cases
      case 1
      then show ?thesis using p0 f0 by simp
    next
      case 2
      have "(1::nat) < 2 \<and> (2::nat) < length ?raw \<and> parse_history_entry (?raw ! 2) ZSH = Some ''echo hi''"
        using p2 by simp
      then have "\<not> (\<forall>j. 1 < j \<and> j < length ?raw \<longrightarrow> parse_history_entry (?raw ! j) ZSH \<noteq> Some ''echo hi'')"
        by blast
      with 2 p1 show ?thesis by simp
    next
      case 3
      have "\<not> (2 < j \<and> j < length ?raw)" for j :: nat
        by auto
      then have "\<forall>j. 2 < j \<and> j < length ?raw \<longrightarrow> parse_history_entry (?raw ! j) ZSH \<noteq> Some ''echo hi''"
        by blast
      with 3 p2 f1 show ?thesis by simp
    next
      case 4
      then show ?thesis by simp
    qed
  qed
  note t = clean_last_occurrence_wins [of ?raw ZSH True]
  from t have a: "clean_history_file ?raw ZSH True = nths ?raw {2}"
    unfolding idx by (rule conjunct1)
  have "filter (\<lambda>e. case parse_history_entry e ZSH of None \<Rightarrow> True | Some p \<Rightarrow> filter_entry p) ?raw =
      ['': 2:1;echo hi'', '': 3:1;echo hi'']"
    by (simp add: match_here_def is_digit_def filter_entry_def exact_match_def editors_def
        starts_with_def)
  with t have b: "clean_history_file ?raw ZSH False = ['': 2:1;echo hi'', '': 3:1;echo hi'']"
    by (simp only:)
  from a b p1 p2 f1 f0 show ?thesis
    by (intro conjI)
qed

subsection \<open>No length restriction\<close>

text \<open>
  Claim C3. \<^verbatim>\<open>clean_history_file\<close> has no length test: an entry whose parsed command
  passes \<^verbatim>\<open>filter\<close>, and which with deduplication enabled is the last entry with that
  parsed command, is in the output, whatever the length of the command and whatever
  \<^verbatim>\<open>remove_long_commands\<close> says about it. The instance after the theorem is a command of
  more than 60 characters.
\<close>

theorem clean_no_length_restriction:
  assumes "i < length raw_history"
    and "parse_history_entry (raw_history ! i) shellt = Some p"
    and "filter_entry p"
    and "dedup \<longrightarrow> (\<forall>j. i < j \<and> j < length raw_history \<longrightarrow>
           parse_history_entry (raw_history ! j) shellt \<noteq> Some p)"
  shows "raw_history ! i \<in> set (clean_history_file raw_history shellt dedup)"
proof -
  let ?A = "{i. i < length raw_history \<and>
       (case parse_history_entry (raw_history ! i) shellt of
          None \<Rightarrow> True
        | Some p \<Rightarrow> filter_entry p \<and>
            (dedup \<longrightarrow> (\<forall>j. i < j \<and> j < length raw_history \<longrightarrow>
               parse_history_entry (raw_history ! j) shellt \<noteq> Some p)))}"
  from assms have "i \<in> ?A" by simp
  with assms(1) have "raw_history ! i \<in> set (nths raw_history ?A)"
    unfolding set_nths by blast
  then show ?thesis by (simp only: clean_nths [symmetric])
qed

theorem clean_no_length_restriction_witness:
  "\<not> remove_long_commands ''echo 0123456789012345678901234567890123456789012345678901234567890123456789'' 60 \<and>
   ''echo 0123456789012345678901234567890123456789012345678901234567890123456789''
     \<in> set (clean_history_file
          [''ls'', ''echo 0123456789012345678901234567890123456789012345678901234567890123456789''] BASH True)"
proof -
  let ?long = "''echo 0123456789012345678901234567890123456789012345678901234567890123456789''"
  have f: "filter_entry ?long"
    by (simp add: filter_entry_def exact_match_def editors_def starts_with_def)
  have l: "\<not> remove_long_commands ?long 60"
    by (simp add: remove_long_commands_def)
  have "[''ls'', ?long] ! 1 \<in> set (clean_history_file [''ls'', ?long] BASH True)"
  proof (rule clean_no_length_restriction)
    show "1 < length [''ls'', ?long]" by simp
    show "parse_history_entry ([''ls'', ?long] ! 1) BASH = Some ?long" by simp
    show "filter_entry ?long" by (rule f)
    show "True \<longrightarrow> (\<forall>j. 1 < j \<and> j < length [''ls'', ?long] \<longrightarrow>
           parse_history_entry ([''ls'', ?long] ! j) BASH \<noteq> Some ?long)"
      by simp
  qed
  with l show ?thesis by simp
qed


end
